theory Spec2Isabelle
  imports Main
begin

section \<open>Board and move generator (game\_logic.py)\<close>

text \<open>
  The board is a numpy array of shape (6, 7) holding Python integers: 0 for an empty
  cell, 1 and 2 for the two players. Row 0 is the top row. It is modelled as a list of
  rows; \<open>wf_board\<close> states the shape that \<open>np.zeros((ROWS, COLS))\<close> gives it.
\<close>

type_synonym board = "int list list"

abbreviation ROWS :: nat where "ROWS \<equiv> 6"
abbreviation COLS :: nat where "COLS \<equiv> 7"

definition wf_board :: "board \<Rightarrow> bool" where
  "wf_board board = (length board = ROWS \<and> list_all (\<lambda>row. length row = COLS) board)"

definition create_board :: board where
  "create_board = replicate ROWS (replicate COLS 0)"

text \<open>
  Errors are values. numpy raises IndexError for an index outside \<open>-n \<dots> n-1\<close> on an
  axis of size \<open>n\<close>, and counts a negative index from the end.
\<close>

datatype py_error = IndexError

definition np_index :: "nat \<Rightarrow> int \<Rightarrow> py_error + nat" where
  "np_index n i =
     (if 0 \<le> i \<and> i < int n then Inr (nat i)
      else if - int n \<le> i \<and> i < 0 then Inr (nat (int n + i))
      else Inl IndexError)"

definition is_valid_location :: "board \<Rightarrow> int \<Rightarrow> bool" where
  "is_valid_location board col =
     (if col < 0 \<or> col \<ge> int COLS then False else board ! 0 ! nat col = 0)"

text \<open>
  \<open>get_next_open_row\<close>: the loop \<open>for r in range(ROWS - 1, -1, -1)\<close> returns the first
  row, from the bottom, whose cell in the column is 0. When the loop ends without a
  return the Python function returns None: that is \<open>Inr None\<close> here.
  \<open>scan_rows board c n\<close> is the loop over the rows \<open>n - 1, \<dots>, 0\<close>.
\<close>

fun scan_rows :: "board \<Rightarrow> nat \<Rightarrow> nat \<Rightarrow> nat option" where
  "scan_rows board c 0 = None"
| "scan_rows board c (Suc r) = (if board ! r ! c = 0 then Some r else scan_rows board c r)"

definition get_next_open_row :: "board \<Rightarrow> int \<Rightarrow> py_error + nat option" where
  "get_next_open_row board col =
     (case np_index COLS col of
        Inl e \<Rightarrow> Inl e
      | Inr c \<Rightarrow> Inr (scan_rows board c ROWS))"

text \<open>
  \<open>drop_piece\<close> is the assignment \<open>board[row][col] = player\<close>, with no test of the
  cell's content. The model returns the updated board.
\<close>

definition drop_piece :: "board \<Rightarrow> int \<Rightarrow> int \<Rightarrow> int \<Rightarrow> py_error + board" where
  "drop_piece board row col player =
     (case np_index ROWS row of
        Inl e \<Rightarrow> Inl e
      | Inr r \<Rightarrow>
          (case np_index COLS col of
             Inl e \<Rightarrow> Inl e
           | Inr c \<Rightarrow> Inr (board[r := (board ! r)[c := player]])))"

text \<open>
  \<open>check_win\<close>: four scans of 4-cell windows; each \<open>return True\<close> inside a loop is an
  existential over the loop's range.
\<close>

definition check_win :: "board \<Rightarrow> int \<Rightarrow> bool" where
  "check_win board player =
     (list_ex (\<lambda>r. list_ex (\<lambda>c. list_all (\<lambda>i. board ! r ! (c + i) = player) [0..<4])
                     [0..<COLS - 3]) [0..<ROWS]
      \<or> list_ex (\<lambda>r. list_ex (\<lambda>c. list_all (\<lambda>i. board ! (r + i) ! c = player) [0..<4])
                     [0..<COLS]) [0..<ROWS - 3]
      \<or> list_ex (\<lambda>r. list_ex (\<lambda>c. list_all (\<lambda>i. board ! (r + i) ! (c + i) = player) [0..<4])
                     [0..<COLS - 3]) [0..<ROWS - 3]
      \<or> list_ex (\<lambda>r. list_ex (\<lambda>c. list_all (\<lambda>i. board ! (r - i) ! (c + i) = player) [0..<4])
                     [0..<COLS - 3]) [3..<ROWS])"

definition is_draw :: "board \<Rightarrow> bool" where
  "is_draw board = list_all (\<lambda>c. board ! 0 ! c \<noteq> 0) [0..<COLS]"

text \<open>
  Three places of the source simulate a move in a legal column with the same three
  statements: \<open>row = get_next_open_row(board, c)\<close>, \<open>new = board.copy()\<close>,
  \<open>drop_piece(new, row, c, player)\<close>. \<open>place_piece\<close> is that sequence. Every caller has
  tested \<open>is_valid_location board c\<close> first, so neither call raises and the row is not
  None (lemma \<open>place_piece_valid\<close>); for the other results, which no caller can meet,
  the model has no board.
\<close>

definition place_piece :: "board \<Rightarrow> int \<Rightarrow> int \<Rightarrow> board option" where
  "place_piece board c player =
     (case get_next_open_row board c of
        Inr (Some row) \<Rightarrow>
          (case drop_piece board (int row) c player of
             Inr new_board \<Rightarrow> Some new_board
           | Inl e \<Rightarrow> None)
      | _ \<Rightarrow> None)"

text \<open>
  \<open>get_children\<close>: one copy of the board per legal column, in ascending column order.
\<close>

definition child_of :: "board \<Rightarrow> int \<Rightarrow> int \<Rightarrow> board list" where
  "child_of board player c =
     (if is_valid_location board c then
        (case place_piece board c player of Some new_board \<Rightarrow> [new_board] | None \<Rightarrow> [])
      else [])"

definition get_children :: "board \<Rightarrow> int \<Rightarrow> board list" where
  "get_children board player = concat (map (\<lambda>c. child_of board player (int c)) [0..<COLS])"

section \<open>Heuristic evaluator (ai\_terminal.py; pygame\_gui.py holds the same two functions)\<close>

definition score_window :: "int list \<Rightarrow> int \<Rightarrow> int" where
  "score_window window player =
     (let opponent = (if player = 1 then 2 else 1);
          score = 0;
          score =
            (if count_list window player = 4 then score + 1000
             else if count_list window player = 3 \<and> count_list window 0 = 1 then score + 100
             else if count_list window player = 2 \<and> count_list window 0 = 2 then score + 10
             else score);
          score =
            (if count_list window opponent = 4 then score - 1500
             else if count_list window opponent = 3 \<and> count_list window 0 = 1 then score - 100
             else if count_list window opponent = 2 \<and> count_list window 0 = 2 then score - 10
             else score)
      in score)"

definition heuristic :: "board \<Rightarrow> int \<Rightarrow> int" where
  "heuristic board player =
     (\<Sum>r\<leftarrow>[0..<ROWS]. \<Sum>c\<leftarrow>[0..<COLS - 3].
        score_window (map (\<lambda>i. board ! r ! (c + i)) [0..<4]) player)
   + (\<Sum>r\<leftarrow>[0..<ROWS - 3]. \<Sum>c\<leftarrow>[0..<COLS].
        score_window (map (\<lambda>i. board ! (r + i) ! c) [0..<4]) player)
   + (\<Sum>r\<leftarrow>[0..<ROWS - 3]. \<Sum>c\<leftarrow>[0..<COLS - 3].
        score_window (map (\<lambda>i. board ! (r + i) ! (c + i)) [0..<4]) player)
   + (\<Sum>r\<leftarrow>[3..<ROWS]. \<Sum>c\<leftarrow>[0..<COLS - 3].
        score_window (map (\<lambda>i. board ! (r - i) ! (c + i)) [0..<4]) player)"

section \<open>Scores\<close>

text \<open>
  The searches start from \<open>float('-inf')\<close> and \<open>float('inf')\<close> and compare them with the
  integers the heuristic returns; Python compares the two exactly. A score is an
  integer or one of the two infinities.
\<close>

datatype score = NegInf | Fin int | PosInf

instantiation score :: linorder
begin

fun less_eq_score :: "score \<Rightarrow> score \<Rightarrow> bool" where
  "less_eq_score NegInf y = True"
| "less_eq_score (Fin a) NegInf = False"
| "less_eq_score (Fin a) (Fin b) = (a \<le> b)"
| "less_eq_score (Fin a) PosInf = True"
| "less_eq_score PosInf NegInf = False"
| "less_eq_score PosInf (Fin b) = False"
| "less_eq_score PosInf PosInf = True"

definition less_score :: "score \<Rightarrow> score \<Rightarrow> bool" where
  "less_score x y = (x \<le> y \<and> \<not> y \<le> x)"

instance
proof
  fix x y z :: score
  show "(x < y) = (x \<le> y \<and> \<not> y \<le> x)" by (simp add: less_score_def)
  show "x \<le> x" by (cases x) simp_all
  show "x \<le> y \<Longrightarrow> y \<le> z \<Longrightarrow> x \<le> z" by (cases x; cases y; cases z) simp_all
  show "x \<le> y \<Longrightarrow> y \<le> x \<Longrightarrow> x = y" by (cases x; cases y) simp_all
  show "x \<le> y \<or> y \<le> x" by (cases x; cases y) auto
qed

end

section \<open>Search with a node counter (connect4\_evaluation.py)\<close>

text \<open>
  \<open>counter['nodes']\<close> is threaded through the calls: each function takes the counter and
  returns it with its result. The \<open>for\<close> loops over the children are the loop
  functions; they run at the children's depth \<open>depth - 1\<close>, which the caller computes
  after its test \<open>depth == 0\<close>. The depth is a natural number: the callers pass 1 to 8.
\<close>

type_synonym counter = int

function minimax_no_pruning :: "board \<Rightarrow> nat \<Rightarrow> bool \<Rightarrow> counter \<Rightarrow> score \<times> counter"
  and np_max_loop :: "board list \<Rightarrow> nat \<Rightarrow> score \<Rightarrow> counter \<Rightarrow> score \<times> counter"
  and np_min_loop :: "board list \<Rightarrow> nat \<Rightarrow> score \<Rightarrow> counter \<Rightarrow> score \<times> counter"
where
  "minimax_no_pruning board depth maximizing_player counter =
     (let counter = counter + 1 in
      if depth = 0 \<or> check_win board 1 \<or> check_win board 2 \<or> is_draw board
      then (Fin (heuristic board 1), counter)
      else if maximizing_player
      then np_max_loop (get_children board 1) (depth - 1) NegInf counter
      else np_min_loop (get_children board 2) (depth - 1) PosInf counter)"
| "np_max_loop [] depth' value counter = (value, counter)"
| "np_max_loop (child # rest) depth' value counter =
     (case minimax_no_pruning child depth' False counter of
        (v, counter) \<Rightarrow>
          np_max_loop rest depth' (if v > value then v else value) counter)"
| "np_min_loop [] depth' value counter = (value, counter)"
| "np_min_loop (child # rest) depth' value counter =
     (case minimax_no_pruning child depth' True counter of
        (v, counter) \<Rightarrow>
          np_min_loop rest depth' (if v < value then v else value) counter)"
  by pat_completeness auto
termination
  by (relation "measures
        [\<lambda>x. case x of Inl (b, d, r) \<Rightarrow> 2 * d
                      | Inr (Inl (cs, d, r)) \<Rightarrow> 2 * d + 1
                      | Inr (Inr (cs, d, r)) \<Rightarrow> 2 * d + 1,
         \<lambda>x. case x of Inl (b, d, r) \<Rightarrow> 0
                      | Inr (Inl (cs, d, r)) \<Rightarrow> length cs
                      | Inr (Inr (cs, d, r)) \<Rightarrow> length cs]") auto

function minimax_ab :: "board \<Rightarrow> nat \<Rightarrow> score \<Rightarrow> score \<Rightarrow> bool \<Rightarrow> counter \<Rightarrow> score \<times> counter"
  and ab_max_loop :: "board list \<Rightarrow> nat \<Rightarrow> score \<Rightarrow> score \<Rightarrow> score \<Rightarrow> counter \<Rightarrow> score \<times> counter"
  and ab_min_loop :: "board list \<Rightarrow> nat \<Rightarrow> score \<Rightarrow> score \<Rightarrow> score \<Rightarrow> counter \<Rightarrow> score \<times> counter"
where
  "minimax_ab board depth alpha beta maximizing_player counter =
     (let counter = counter + 1 in
      if depth = 0 \<or> check_win board 1 \<or> check_win board 2 \<or> is_draw board
      then (Fin (heuristic board 1), counter)
      else if maximizing_player
      then ab_max_loop (get_children board 1) (depth - 1) alpha beta NegInf counter
      else ab_min_loop (get_children board 2) (depth - 1) alpha beta PosInf counter)"
| "ab_max_loop [] depth' alpha beta value counter = (value, counter)"
| "ab_max_loop (child # rest) depth' alpha beta value counter =
     (case minimax_ab child depth' alpha beta False counter of
        (v, counter) \<Rightarrow>
          (let value = (if v > value then v else value);
               alpha = max alpha v
           in if beta \<le> alpha then (value, counter)
              else ab_max_loop rest depth' alpha beta value counter))"
| "ab_min_loop [] depth' alpha beta value counter = (value, counter)"
| "ab_min_loop (child # rest) depth' alpha beta value counter =
     (case minimax_ab child depth' alpha beta True counter of
        (v, counter) \<Rightarrow>
          (let value = (if v < value then v else value);
               beta = min beta v
           in if beta \<le> alpha then (value, counter)
              else ab_min_loop rest depth' alpha beta value counter))"
  by pat_completeness auto
termination
  by (relation "measures
        [\<lambda>x. case x of Inl (b, d, r) \<Rightarrow> 2 * d
                      | Inr (Inl (cs, d, r)) \<Rightarrow> 2 * d + 1
                      | Inr (Inr (cs, d, r)) \<Rightarrow> 2 * d + 1,
         \<lambda>x. case x of Inl (b, d, r) \<Rightarrow> 0
                      | Inr (Inl (cs, d, r)) \<Rightarrow> length cs
                      | Inr (Inr (cs, d, r)) \<Rightarrow> length cs]") auto

section \<open>Search of the terminal game (ai\_terminal.py)\<close>

function minimax :: "board \<Rightarrow> nat \<Rightarrow> score \<Rightarrow> score \<Rightarrow> bool \<Rightarrow> score"
  and minimax_max_loop :: "board list \<Rightarrow> nat \<Rightarrow> score \<Rightarrow> score \<Rightarrow> score \<Rightarrow> score"
  and minimax_min_loop :: "board list \<Rightarrow> nat \<Rightarrow> score \<Rightarrow> score \<Rightarrow> score \<Rightarrow> score"
where
  "minimax board depth alpha beta maximizing_player =
     (if depth = 0 \<or> check_win board 1 \<or> check_win board 2 \<or> is_draw board
      then Fin (heuristic board 1)
      else if maximizing_player
      then minimax_max_loop (get_children board 1) (depth - 1) alpha beta NegInf
      else minimax_min_loop (get_children board 2) (depth - 1) alpha beta PosInf)"
| "minimax_max_loop [] depth' alpha beta max_eval = max_eval"
| "minimax_max_loop (child # rest) depth' alpha beta max_eval =
     (let eval = minimax child depth' alpha beta False;
          max_eval = max max_eval eval;
          alpha = max alpha eval
      in if beta \<le> alpha then max_eval
         else minimax_max_loop rest depth' alpha beta max_eval)"
| "minimax_min_loop [] depth' alpha beta min_eval = min_eval"
| "minimax_min_loop (child # rest) depth' alpha beta min_eval =
     (let eval = minimax child depth' alpha beta True;
          min_eval = min min_eval eval;
          beta = min beta eval
      in if beta \<le> alpha then min_eval
         else minimax_min_loop rest depth' alpha beta min_eval)"
  by pat_completeness auto
termination
  by (relation "measures
        [\<lambda>x. case x of Inl (b, d, r) \<Rightarrow> 2 * d
                      | Inr (Inl (cs, d, r)) \<Rightarrow> 2 * d + 1
                      | Inr (Inr (cs, d, r)) \<Rightarrow> 2 * d + 1,
         \<lambda>x. case x of Inl (b, d, r) \<Rightarrow> 0
                      | Inr (Inl (cs, d, r)) \<Rightarrow> length cs
                      | Inr (Inr (cs, d, r)) \<Rightarrow> length cs]") auto

text \<open>
  The AI's move in \<open>play_game_vs_ai\<close> (lines 162 to 175): the loop over \<open>range(COLS)\<close>
  that keeps the column of the strictly greatest score. \<open>best_col\<close> starts as None.
  The searches below the root run at \<open>depth - 1\<close>. The game is played at depth 2, 4 or
  6 (\<open>main\<close>), and the model takes the number \<open>depth' = depth - 1\<close> as its parameter:
  \<open>ai_move board depth'\<close> is the move of the game played at depth \<open>depth' + 1\<close>. A depth
  of 0 or less, where \<open>depth - 1\<close> is negative and the search never meets
  \<open>depth == 0\<close>, is outside the model.
\<close>

fun ai_move_loop :: "board \<Rightarrow> int list \<Rightarrow> nat \<Rightarrow> score \<Rightarrow> int option \<Rightarrow> score \<times> int option" where
  "ai_move_loop board [] depth' best_score best_col = (best_score, best_col)"
| "ai_move_loop board (c # cs) depth' best_score best_col =
     (if is_valid_location board c then
        (case place_piece board c 1 of
           None \<Rightarrow> ai_move_loop board cs depth' best_score best_col
         | Some temp_board \<Rightarrow>
             (let score = minimax temp_board depth' NegInf PosInf False
              in if score > best_score
                 then ai_move_loop board cs depth' score (Some c)
                 else ai_move_loop board cs depth' best_score best_col))
      else ai_move_loop board cs depth' best_score best_col)"

definition ai_move :: "board \<Rightarrow> nat \<Rightarrow> int option" where
  "ai_move board depth' = snd (ai_move_loop board (map int [0..<COLS]) depth' NegInf None)"

section \<open>Move-returning search of the GUI (pygame\_gui.py)\<close>

text \<open>
  \<open>minimax_with_col\<close> returns the pair (best column, score); the column is None at a
  leaf. \<open>valid_locations[0]\<close> is read after the terminal test, and the list is empty
  only on a full board, which is terminal (lemma \<open>valid_locations_empty\<close>), so the read
  cannot raise.
\<close>

definition valid_locations :: "board \<Rightarrow> int list" where
  "valid_locations board = filter (is_valid_location board) (map int [0..<COLS])"

function minimax_with_col ::
    "board \<Rightarrow> nat \<Rightarrow> score \<Rightarrow> score \<Rightarrow> bool \<Rightarrow> int \<Rightarrow> int option \<times> score"
  and with_col_max_loop ::
    "board \<Rightarrow> int list \<Rightarrow> nat \<Rightarrow> score \<Rightarrow> score \<Rightarrow> int \<Rightarrow> score \<Rightarrow> int option \<Rightarrow> int option \<times> score"
  and with_col_min_loop ::
    "board \<Rightarrow> int list \<Rightarrow> nat \<Rightarrow> score \<Rightarrow> score \<Rightarrow> int \<Rightarrow> score \<Rightarrow> int option \<Rightarrow> int option \<times> score"
where
  "minimax_with_col board depth alpha beta maximizing ai_player =
     (let terminal = (check_win board 1 \<or> check_win board 2 \<or> is_draw board) in
      if depth = 0 \<or> terminal then (None, Fin (heuristic board ai_player))
      else if maximizing
      then with_col_max_loop board (valid_locations board) (depth - 1) alpha beta ai_player
             NegInf (case valid_locations board of [] \<Rightarrow> None | c # cs \<Rightarrow> Some c)
      else with_col_min_loop board (valid_locations board) (depth - 1) alpha beta ai_player
             PosInf (case valid_locations board of [] \<Rightarrow> None | c # cs \<Rightarrow> Some c))"
| "with_col_max_loop board [] depth' alpha beta ai_player value best_col = (best_col, value)"
| "with_col_max_loop board (col # rest) depth' alpha beta ai_player value best_col =
     (case place_piece board col ai_player of
        None \<Rightarrow> (best_col, value)
      | Some temp \<Rightarrow>
          (case minimax_with_col temp depth' alpha beta False ai_player of
             (_, score) \<Rightarrow>
               (let best_col = (if score > value then Some col else best_col);
                    value = (if score > value then score else value);
                    alpha = max alpha value
                in if alpha \<ge> beta then (best_col, value)
                   else with_col_max_loop board rest depth' alpha beta ai_player value best_col)))"
| "with_col_min_loop board [] depth' alpha beta ai_player value best_col = (best_col, value)"
| "with_col_min_loop board (col # rest) depth' alpha beta ai_player value best_col =
     (case place_piece board col (if ai_player = 2 then 1 else 2) of
        None \<Rightarrow> (best_col, value)
      | Some temp \<Rightarrow>
          (case minimax_with_col temp depth' alpha beta True ai_player of
             (_, score) \<Rightarrow>
               (let best_col = (if score < value then Some col else best_col);
                    value = (if score < value then score else value);
                    beta = min beta value
                in if alpha \<ge> beta then (best_col, value)
                   else with_col_min_loop board rest depth' alpha beta ai_player value best_col)))"
  by pat_completeness auto
termination
  by (relation "measures
        [\<lambda>x. case x of Inl (b, d, r) \<Rightarrow> 2 * d
                      | Inr (Inl (b, cs, d, r)) \<Rightarrow> 2 * d + 1
                      | Inr (Inr (b, cs, d, r)) \<Rightarrow> 2 * d + 1,
         \<lambda>x. case x of Inl (b, d, r) \<Rightarrow> 0
                      | Inr (Inl (b, cs, d, r)) \<Rightarrow> length cs
                      | Inr (Inr (b, cs, d, r)) \<Rightarrow> length cs]") auto

text \<open>
  The AI's turn in \<open>run_pygame_game\<close> (lines 550 to 555): the move is played only
  when \<open>best_col is not None and is_valid_location(board, best_col)\<close>; otherwise the
  board stays as it is.
\<close>

definition ai_turn :: "board \<Rightarrow> nat \<Rightarrow> int \<Rightarrow> board" where
  "ai_turn board depth ai =
     (case fst (minimax_with_col board depth NegInf PosInf True ai) of
        None \<Rightarrow> board
      | Some best_col \<Rightarrow>
          (if is_valid_location board best_col
           then (case place_piece board best_col ai of Some b \<Rightarrow> b | None \<Rightarrow> board)
           else board))"

section \<open>Reference notions of the specification\<close>

text \<open>
  A line of four as the specification words it: four consecutive cells of the board,
  starting at cell \<open>(r, c)\<close>, all equal to the player, going right along a row, down
  along a column, down-right along a diagonal, or up-right along the other diagonal.
\<close>

definition on_board :: "nat \<Rightarrow> nat \<Rightarrow> bool" where
  "on_board r c = (r < ROWS \<and> c < COLS)"

definition four_in_line :: "board \<Rightarrow> int \<Rightarrow> bool" where
  "four_in_line board p =
     (\<exists>r c. on_board r c \<and>
        ((on_board r (c + 3) \<and> (\<forall>i<4. board ! r ! (c + i) = p))
       \<or> (on_board (r + 3) c \<and> (\<forall>i<4. board ! (r + i) ! c = p))
       \<or> (on_board (r + 3) (c + 3) \<and> (\<forall>i<4. board ! (r + i) ! (c + i) = p))
       \<or> (3 \<le> r \<and> on_board (r - 3) (c + 3) \<and> (\<forall>i<4. board ! (r - i) ! (c + i) = p))))"

text \<open>
  What a search with the window \<open>(\<alpha>, \<beta>)\<close> promises about the score \<open>x\<close> it returns,
  where \<open>t\<close> is the score of the search without pruning: at or below \<open>\<alpha>\<close> it is an
  upper bound of \<open>t\<close>, at or above \<open>\<beta>\<close> a lower bound, and inside the window it is \<open>t\<close>.
\<close>

definition soft_bound :: "score \<Rightarrow> score \<Rightarrow> score \<Rightarrow> score \<Rightarrow> bool" where
  "soft_bound \<alpha> \<beta> t x =
     ((x \<le> \<alpha> \<longrightarrow> t \<le> x) \<and> (\<beta> \<le> x \<longrightarrow> x \<le> t) \<and> (\<alpha> < x \<and> x < \<beta> \<longrightarrow> x = t))"

text \<open>
  The gravity invariant: no piece floats. Every occupied cell above the bottom row has
  an occupied cell directly below it, so the occupied cells of a column form one run
  from the bottom row upward.
\<close>

definition gravity :: "board \<Rightarrow> bool" where
  "gravity board =
     list_all (\<lambda>c. list_all (\<lambda>r. board ! r ! c = 0 \<or> board ! Suc r ! c \<noteq> 0) [0..<ROWS - 1])
       [0..<COLS]"

section \<open>Boards used as concrete inputs\<close>

text \<open>Player 1 has completed the bottom row's first four cells; every column is open.\<close>

definition won_board :: board where
  "won_board =
     [[0, 0, 0, 0, 0, 0, 0],
      [0, 0, 0, 0, 0, 0, 0],
      [0, 0, 0, 0, 0, 0, 0],
      [0, 0, 0, 0, 0, 0, 0],
      [0, 0, 0, 0, 0, 0, 0],
      [1, 1, 1, 1, 2, 2, 2]]"

text \<open>
  A full board, 21 pieces each, on which player 1 holds the top row's first four cells.
\<close>

definition full_won_board :: board where
  "full_won_board =
     [[1, 1, 1, 1, 2, 2, 2],
      [2, 2, 2, 1, 1, 1, 2],
      [1, 1, 1, 2, 2, 2, 1],
      [2, 2, 2, 1, 1, 1, 2],
      [1, 1, 1, 2, 2, 2, 1],
      [2, 2, 2, 1, 1, 1, 2]]"

text \<open>Column 0 is full, the other columns are empty.\<close>

definition full_col_board :: board where
  "full_col_board =
     [[2, 0, 0, 0, 0, 0, 0],
      [1, 0, 0, 0, 0, 0, 0],
      [2, 0, 0, 0, 0, 0, 0],
      [1, 0, 0, 0, 0, 0, 0],
      [2, 0, 0, 0, 0, 0, 0],
      [1, 0, 0, 0, 0, 0, 0]]"

text \<open>The empty board after player 1 has played column 0.\<close>

definition first_move_board :: board where
  "first_move_board =
     [[0, 0, 0, 0, 0, 0, 0],
      [0, 0, 0, 0, 0, 0, 0],
      [0, 0, 0, 0, 0, 0, 0],
      [0, 0, 0, 0, 0, 0, 0],
      [0, 0, 0, 0, 0, 0, 0],
      [1, 0, 0, 0, 0, 0, 0]]"

section \<open>Cutoffs of the pruned search\<close>

text \<open>
  Bookkeeping about \<open>minimax_ab\<close>, not part of the source: \<open>ab_break_sum f\<close> walks the
  same calls with the same windows and adds \<open>f n\<close> for every \<open>break\<close> that is executed,
  where \<open>n\<close> is the number of children of that node not yet examined. With \<open>f n = 1\<close>
  it counts the cutoffs, with \<open>f n = n\<close> the children that the cutoffs skip.
\<close>

function ab_break_sum :: "(nat \<Rightarrow> nat) \<Rightarrow> board \<Rightarrow> nat \<Rightarrow> score \<Rightarrow> score \<Rightarrow> bool \<Rightarrow> nat"
  and max_break_sum :: "(nat \<Rightarrow> nat) \<Rightarrow> board list \<Rightarrow> nat \<Rightarrow> score \<Rightarrow> score \<Rightarrow> nat"
  and min_break_sum :: "(nat \<Rightarrow> nat) \<Rightarrow> board list \<Rightarrow> nat \<Rightarrow> score \<Rightarrow> score \<Rightarrow> nat"
where
  "ab_break_sum f board depth alpha beta maximizing_player =
     (if depth = 0 \<or> check_win board 1 \<or> check_win board 2 \<or> is_draw board then 0
      else if maximizing_player
      then max_break_sum f (get_children board 1) (depth - 1) alpha beta
      else min_break_sum f (get_children board 2) (depth - 1) alpha beta)"
| "max_break_sum f [] depth' alpha beta = 0"
| "max_break_sum f (child # rest) depth' alpha beta =
     ab_break_sum f child depth' alpha beta False
     + (let alpha = max alpha (fst (minimax_ab child depth' alpha beta False 0))
        in if beta \<le> alpha then f (length rest)
           else max_break_sum f rest depth' alpha beta)"
| "min_break_sum f [] depth' alpha beta = 0"
| "min_break_sum f (child # rest) depth' alpha beta =
     ab_break_sum f child depth' alpha beta True
     + (let beta = min beta (fst (minimax_ab child depth' alpha beta True 0))
        in if beta \<le> alpha then f (length rest)
           else min_break_sum f rest depth' alpha beta)"
  by pat_completeness auto
termination
  by (relation "measures
        [\<lambda>x. case x of Inl (f, b, d, r) \<Rightarrow> 2 * d
                      | Inr (Inl (f, cs, d, r)) \<Rightarrow> 2 * d + 1
                      | Inr (Inr (f, cs, d, r)) \<Rightarrow> 2 * d + 1,
         \<lambda>x. case x of Inl (f, b, d, r) \<Rightarrow> 0
                      | Inr (Inl (f, cs, d, r)) \<Rightarrow> length cs
                      | Inr (Inr (f, cs, d, r)) \<Rightarrow> length cs]") auto

definition ab_cutoffs :: "board \<Rightarrow> nat \<Rightarrow> score \<Rightarrow> score \<Rightarrow> bool \<Rightarrow> nat" where
  "ab_cutoffs = ab_break_sum (\<lambda>n. 1)"

definition ab_skipped :: "board \<Rightarrow> nat \<Rightarrow> score \<Rightarrow> score \<Rightarrow> bool \<Rightarrow> nat" where
  "ab_skipped = ab_break_sum (\<lambda>n. n)"

text \<open>
  Two open columns with one free cell each; the only cutoff of a depth-2 search fires
  after the last child of its node.
\<close>

definition late_cutoff_board :: board where
  "late_cutoff_board =
     [[1, 1, 2, 2, 0, 0, 2],
      [2, 2, 1, 1, 2, 1, 2],
      [2, 2, 2, 1, 1, 1, 2],
      [2, 2, 1, 1, 2, 2, 1],
      [1, 1, 2, 2, 1, 2, 1],
      [2, 1, 1, 1, 2, 1, 1]]"

text \<open>Two open columns with two free cells each; a depth-2 search skips one child.\<close>

definition pruned_board :: board where
  "pruned_board =
     [[2, 2, 2, 0, 1, 0, 1],
      [1, 1, 2, 0, 2, 0, 2],
      [2, 2, 1, 2, 1, 2, 1],
      [1, 1, 2, 2, 1, 1, 2],
      [1, 1, 2, 1, 1, 2, 1],
      [1, 2, 1, 2, 2, 2, 1]]"

section \<open>Scores of the columns at the root\<close>





section \<open>Ranges of the loops\<close>

lemma list_ex_upt: "list_ex P [a..<b] = (\<exists>x. a \<le> x \<and> x < b \<and> P x)"
  by (auto simp: list_ex_iff)

lemma list_all_upt: "list_all P [a..<b] = (\<forall>x. a \<le> x \<and> x < b \<longrightarrow> P x)"
  by (auto simp: list_all_iff)

section \<open>Terminal detector\<close>

lemma horiz_iff:
  "list_ex (\<lambda>r. list_ex (\<lambda>c. Q r c) [0..<COLS - 3]) [0..<ROWS]
     = (\<exists>r c. on_board r c \<and> on_board r (c + 3) \<and> Q r c)"
proof -
  have "list_ex (\<lambda>r. list_ex (\<lambda>c. Q r c) [0..<COLS - 3]) [0..<ROWS]
          = (\<exists>r c. (r < ROWS \<and> c < COLS - 3) \<and> Q r c)"
    unfolding list_ex_upt by auto
  also have "\<dots> = (\<exists>r c. on_board r c \<and> on_board r (c + 3) \<and> Q r c)"
    unfolding on_board_def by (intro iff_exI) auto
  finally show ?thesis .
qed

lemma vert_iff:
  "list_ex (\<lambda>r. list_ex (\<lambda>c. Q r c) [0..<COLS]) [0..<ROWS - 3]
     = (\<exists>r c. on_board r c \<and> on_board (r + 3) c \<and> Q r c)"
proof -
  have "list_ex (\<lambda>r. list_ex (\<lambda>c. Q r c) [0..<COLS]) [0..<ROWS - 3]
          = (\<exists>r c. (r < ROWS - 3 \<and> c < COLS) \<and> Q r c)"
    unfolding list_ex_upt by auto
  also have "\<dots> = (\<exists>r c. on_board r c \<and> on_board (r + 3) c \<and> Q r c)"
    unfolding on_board_def by (intro iff_exI) auto
  finally show ?thesis .
qed

lemma diag_iff:
  "list_ex (\<lambda>r. list_ex (\<lambda>c. Q r c) [0..<COLS - 3]) [0..<ROWS - 3]
     = (\<exists>r c. on_board r c \<and> on_board (r + 3) (c + 3) \<and> Q r c)"
proof -
  have "list_ex (\<lambda>r. list_ex (\<lambda>c. Q r c) [0..<COLS - 3]) [0..<ROWS - 3]
          = (\<exists>r c. (r < ROWS - 3 \<and> c < COLS - 3) \<and> Q r c)"
    unfolding list_ex_upt by auto
  also have "\<dots> = (\<exists>r c. on_board r c \<and> on_board (r + 3) (c + 3) \<and> Q r c)"
    unfolding on_board_def by (intro iff_exI) auto
  finally show ?thesis .
qed

lemma anti_iff:
  "list_ex (\<lambda>r. list_ex (\<lambda>c. Q r c) [0..<COLS - 3]) [3..<ROWS]
     = (\<exists>r c. on_board r c \<and> 3 \<le> r \<and> on_board (r - 3) (c + 3) \<and> Q r c)"
proof -
  have "list_ex (\<lambda>r. list_ex (\<lambda>c. Q r c) [0..<COLS - 3]) [3..<ROWS]
          = (\<exists>r c. (3 \<le> r \<and> r < ROWS \<and> c < COLS - 3) \<and> Q r c)"
    unfolding list_ex_upt by auto
  also have "\<dots> = (\<exists>r c. on_board r c \<and> 3 \<le> r \<and> on_board (r - 3) (c + 3) \<and> Q r c)"
    unfolding on_board_def by (intro iff_exI) auto
  finally show ?thesis .
qed

lemma all_lt4: "list_all P [0..<4] = (\<forall>i<4. P (i::nat))"
  unfolding list_all_upt by simp

text \<open>
  Claim C5. For every board and every player, \<open>check_win\<close> returns true exactly when
  four consecutive cells of the board, along a row, a column or one of the two
  diagonal directions, all hold the player's value.
\<close>

theorem check_win_iff_four_in_line: "check_win board p = four_in_line board p"
  unfolding check_win_def four_in_line_def horiz_iff vert_iff diag_iff anti_iff all_lt4
  by blast

theorem check_win_iff_four_in_line_witness:
  "check_win won_board 1 \<and> four_in_line won_board 1"
proof -
  have "check_win won_board 1" by code_simp
  then show ?thesis using check_win_iff_four_in_line [of won_board 1] by simp
qed

lemma is_draw_iff_top_row: "is_draw board = (\<forall>c<COLS. board ! 0 ! c \<noteq> 0)"
  unfolding is_draw_def list_all_upt by simp

text \<open>
  Claim C6. \<open>is_draw\<close> is true exactly when the top cell of every column is occupied
  (lemma \<open>is_draw_iff_top_row\<close>): that half of the claim holds. The other half, that a
  true \<open>is_draw\<close> excludes a win, is what the docstring of \<open>is_draw\<close> promises ("True
  if the board is full with no winner, and False otherwise"), and the code breaks it:
  \<open>is_draw\<close> never looks for a winner. On the full board \<open>full_won_board\<close> it returns
  True while player 1 has four in a line.
\<close>

theorem is_draw_with_win: "is_draw full_won_board \<and> check_win full_won_board 1"
  by code_simp

section \<open>Board and move generator\<close>

lemma py_error_only: "(e::py_error) = IndexError"
  by (cases e) simp

lemma np_index_nat: "c < n \<Longrightarrow> np_index n (int c) = Inr c"
  by (simp add: np_index_def)

lemma np_index_high: "int n \<le> i \<Longrightarrow> np_index n i = Inl IndexError"
  by (simp add: np_index_def)

lemma scan_rows_Some:
  "scan_rows board c n = Some r \<Longrightarrow>
     r < n \<and> board ! r ! c = 0 \<and> (\<forall>r'. r < r' \<and> r' < n \<longrightarrow> board ! r' ! c \<noteq> 0)"
proof (induction n)
  case 0
  then show ?case by simp
next
  case (Suc n)
  show ?case
  proof (cases "board ! n ! c = 0")
    case True
    with Suc.prems have "r = n" by simp
    with True show ?thesis by auto
  next
    case False
    with Suc.prems have "scan_rows board c n = Some r" by simp
    from Suc.IH [OF this] False show ?thesis
      by (auto simp: less_Suc_eq)
  qed
qed

lemma scan_rows_None:
  "(scan_rows board c n = None) = (\<forall>r<n. board ! r ! c \<noteq> 0)"
  by (induction n) (auto simp: less_Suc_eq)

lemma scan_rows_top:
  "board ! 0 ! c = 0 \<Longrightarrow> 0 < n \<Longrightarrow> \<exists>r. scan_rows board c n = Some r"
  using scan_rows_None [of board c n] by (cases "scan_rows board c n") auto

lemma valid_col:
  "is_valid_location board c \<Longrightarrow> 0 \<le> c \<and> c < 7 \<and> board ! 0 ! nat c = 0"
  by (simp add: is_valid_location_def split: if_splits)

lemma place_piece_valid:
  assumes "is_valid_location board c"
  shows "\<exists>r. scan_rows board (nat c) ROWS = Some r \<and> r < ROWS \<and>
             place_piece board c player = Some (board[r := (board ! r)[nat c := player]])"
proof -
  from valid_col [OF assms] have c: "0 \<le> c" "c < 7" and top: "board ! 0 ! nat c = 0"
    by simp_all
  from scan_rows_top [OF top, of ROWS] obtain r where r: "scan_rows board (nat c) ROWS = Some r"
    by auto
  from scan_rows_Some [OF r] have rlt: "r < ROWS" by simp
  have ic: "np_index COLS c = Inr (nat c)" using c by (simp add: np_index_def)
  have ir: "np_index ROWS (int r) = Inr r" using rlt by (simp add: np_index_def)
  have "place_piece board c player = Some (board[r := (board ! r)[nat c := player]])"
    by (simp add: place_piece_def get_next_open_row_def drop_piece_def ic ir r)
  with r rlt show ?thesis by blast
qed

lemma valid_locations_empty: "(valid_locations board = []) = is_draw board"
proof -
  have "(valid_locations board = []) = (\<forall>c<COLS. \<not> is_valid_location board (int c))"
    unfolding valid_locations_def filter_empty_conv by auto
  also have "\<dots> = (\<forall>c<COLS. board ! 0 ! c \<noteq> 0)"
    by (intro iff_allI) (auto simp: is_valid_location_def)
  also have "\<dots> = is_draw board"
    unfolding is_draw_def list_all_upt by simp
  finally show ?thesis .
qed


text \<open>
  Claim C7, as amended. The code has no InvalidColumn error. A column index of 7 or
  more, or below -7, makes \<open>get_next_open_row\<close> and \<open>drop_piece\<close> raise numpy's
  IndexError at once. For a full column \<open>get_next_open_row\<close> returns None without
  raising, and \<open>drop_piece\<close> writes the cell it is given whatever the cell holds.
  \<open>is_valid_location\<close>, which every caller tests first, is false in both cases.
\<close>

theorem column_errors:
  "(int COLS \<le> col \<or> col < - int COLS \<longrightarrow>
      get_next_open_row board col = Inl IndexError
      \<and> drop_piece board row col p = Inl IndexError
      \<and> \<not> is_valid_location board col)
   \<and> (0 \<le> col \<and> col < int COLS \<and> (\<forall>r<ROWS. board ! r ! nat col \<noteq> 0) \<longrightarrow>
      get_next_open_row board col = Inr None
      \<and> \<not> is_valid_location board col
      \<and> (\<forall>r<ROWS. drop_piece board (int r) col p
                      = Inr (board[r := (board ! r)[nat col := p]])))"
proof (intro conjI impI)
  assume out: "int COLS \<le> col \<or> col < - int COLS"
  then have idx: "np_index COLS col = Inl IndexError"
    by (auto simp: np_index_def)
  show "get_next_open_row board col = Inl IndexError"
    by (simp add: get_next_open_row_def idx)
  show "drop_piece board row col p = Inl IndexError"
    by (cases "np_index ROWS row") (simp_all add: drop_piece_def idx py_error_only)
  show "\<not> is_valid_location board col"
    using out by (auto simp: is_valid_location_def)
next
  assume full: "0 \<le> col \<and> col < int COLS \<and> (\<forall>r<ROWS. board ! r ! nat col \<noteq> 0)"
  then have idx: "np_index COLS col = Inr (nat col)"
    by (simp add: np_index_def)
  from full have none: "scan_rows board (nat col) ROWS = None"
    unfolding scan_rows_None by simp
  show "get_next_open_row board col = Inr None"
    by (simp add: get_next_open_row_def idx none)
  show "\<not> is_valid_location board col"
    using full by (simp add: is_valid_location_def)
  show "\<forall>r<ROWS. drop_piece board (int r) col p = Inr (board[r := (board ! r)[nat col := p]])"
    by (simp add: drop_piece_def idx np_index_nat)
qed

theorem column_errors_witness:
  "get_next_open_row full_col_board 7 = Inl IndexError
   \<and> drop_piece full_col_board 5 7 1 = Inl IndexError
   \<and> \<not> is_valid_location full_col_board 7
   \<and> list_all (\<lambda>r. full_col_board ! r ! nat 0 \<noteq> 0) [0..<ROWS]
   \<and> get_next_open_row full_col_board 0 = Inr None
   \<and> \<not> is_valid_location full_col_board 0"
proof -
  have full: "list_all (\<lambda>r. full_col_board ! r ! nat 0 \<noteq> 0) [0..<ROWS]"
    by code_simp
  then have "\<forall>r<ROWS. full_col_board ! r ! nat 0 \<noteq> 0"
    unfolding list_all_upt by simp
  then show ?thesis
    using column_errors [of 7 full_col_board 5 1] column_errors [of 0 full_col_board 0 1] full
    by simp
qed

text \<open>
  Claim C7 as stated fails: on \<open>full_col_board\<close>, whose column 0 is full,
  \<open>get_next_open_row\<close> returns None and \<open>drop_piece\<close> overwrites the top cell of the
  column; neither raises.
\<close>

theorem full_column_no_error:
  "get_next_open_row full_col_board 0 = Inr None
   \<and> drop_piece full_col_board 0 0 1 =
       Inr [[1, 0, 0, 0, 0, 0, 0],
            [1, 0, 0, 0, 0, 0, 0],
            [2, 0, 0, 0, 0, 0, 0],
            [1, 0, 0, 0, 0, 0, 0],
            [2, 0, 0, 0, 0, 0, 0],
            [1, 0, 0, 0, 0, 0, 0]]"
  by code_simp

section \<open>Move-returning search\<close>

text \<open>
  Claim C10. At depth 0, and on every board that is won by a player or full,
  \<open>minimax_with_col\<close> returns None as the column, with the heuristic score of the
  board for the AI's player; the AI's turn of the GUI then leaves the board as it is.
\<close>

theorem with_col_leaf:
  "depth = 0 \<or> check_win board 1 \<or> check_win board 2 \<or> is_draw board \<Longrightarrow>
     minimax_with_col board depth alpha beta maximizing ai_player
       = (None, Fin (heuristic board ai_player))
     \<and> ai_turn board depth ai_player = board"
  by (auto simp: ai_turn_def)

theorem with_col_leaf_witness:
  "check_win won_board 1
   \<and> minimax_with_col won_board 2 NegInf PosInf True 2 = (None, Fin (heuristic won_board 2))
   \<and> ai_turn won_board 2 2 = won_board"
proof -
  have w: "check_win won_board 1" by code_simp
  then show ?thesis using with_col_leaf [of 2 won_board NegInf PosInf True 2] by simp
qed

section \<open>The empty board at depth 1\<close>

text \<open>
  Claim C3, as amended. On the empty board at depth 1 (the searches below the root run
  at depth 0), with the AI as player 1, the move selection returns column 0: a single
  piece scores 0 in every window, so all seven columns score 0 and the first column
  examined keeps the choice. The move-returning search of the GUI returns column 0 as
  well.
\<close>

theorem empty_board_depth_1:
  "ai_move create_board (1 - 1) = Some 0
   \<and> fst (minimax_with_col create_board 1 NegInf PosInf True 1) = Some 0
   \<and> map (\<lambda>c. map_option (\<lambda>b. heuristic b 1) (place_piece create_board (int c) 1)) [0..<COLS]
       = replicate COLS (Some 0)"
  by code_simp

text \<open>Claim C3 as stated fails: the column returned is not column 3.\<close>

theorem empty_board_not_center: "ai_move create_board (1 - 1) \<noteq> Some 3"
  by code_simp

section \<open>Successor boards keep the gravity invariant\<close>

lemma gravity_iff:
  "gravity board = (\<forall>c r. c < COLS \<and> Suc r < ROWS \<and> board ! r ! c \<noteq> 0 \<longrightarrow> board ! Suc r ! c \<noteq> 0)"
  unfolding gravity_def list_all_upt by auto

text \<open>
  The invariant in the words of the data model: in every column there is a height \<open>h\<close>
  such that exactly the \<open>h\<close> lowest cells are occupied.
\<close>

lemma gravity_below:
  assumes g: "gravity board" and c: "c < COLS" and occ: "board ! r ! c \<noteq> 0"
  shows "r \<le> r' \<Longrightarrow> r' < ROWS \<Longrightarrow> board ! r' ! c \<noteq> 0"
proof (induction r')
  case 0
  with occ show ?case by simp
next
  case (Suc r')
  show ?case
  proof (cases "r = Suc r'")
    case True
    with occ show ?thesis by simp
  next
    case False
    with Suc.prems have "r \<le> r'" "r' < ROWS" by simp_all
    from Suc.IH [OF this] have "board ! r' ! c \<noteq> 0" .
    with g c Suc.prems(2) show ?thesis unfolding gravity_iff by blast
  qed
qed

lemma gravity_iff_run:
  "gravity board =
     (\<forall>c<COLS. \<exists>h\<le>ROWS. \<forall>r<ROWS. (board ! r ! c \<noteq> 0) = (ROWS - h \<le> r))"
proof
  assume g: "gravity board"
  show "\<forall>c<COLS. \<exists>h\<le>ROWS. \<forall>r<ROWS. (board ! r ! c \<noteq> 0) = (ROWS - h \<le> r)"
  proof (intro allI impI)
    fix c assume c: "c < COLS"
    show "\<exists>h\<le>ROWS. \<forall>r<ROWS. (board ! r ! c \<noteq> 0) = (ROWS - h \<le> r)"
    proof (cases "scan_rows board c ROWS")
      case None
      then have "\<forall>r<ROWS. board ! r ! c \<noteq> 0" by (simp add: scan_rows_None)
      then have "\<forall>r<ROWS. (board ! r ! c \<noteq> 0) = (ROWS - ROWS \<le> r)" by simp
      then show ?thesis by blast
    next
      case (Some r0)
      from scan_rows_Some [OF Some] have r0: "r0 < ROWS" and e: "board ! r0 ! c = 0"
        and below: "\<And>r. r0 < r \<Longrightarrow> r < ROWS \<Longrightarrow> board ! r ! c \<noteq> 0" by auto
      have above: "\<And>r. r \<le> r0 \<Longrightarrow> board ! r ! c = 0"
      proof (rule ccontr)
        fix r assume "r \<le> r0" "board ! r ! c \<noteq> 0"
        from gravity_below [OF g c this(2) this(1) r0] e show False by simp
      qed
      have "\<forall>r<ROWS. (board ! r ! c \<noteq> 0) = (ROWS - (ROWS - Suc r0) \<le> r)"
      proof (intro allI impI)
        fix r assume r: "r < ROWS"
        show "(board ! r ! c \<noteq> 0) = (ROWS - (ROWS - Suc r0) \<le> r)"
        proof (cases "r \<le> r0")
          case True
          with above [OF True] r0 show ?thesis by simp
        next
          case False
          then have "r0 < r" by simp
          with below [OF this r] r0 show ?thesis by simp
        qed
      qed
      moreover have "ROWS - Suc r0 \<le> ROWS" by simp
      ultimately show ?thesis by blast
    qed
  qed
next
  assume run: "\<forall>c<COLS. \<exists>h\<le>ROWS. \<forall>r<ROWS. (board ! r ! c \<noteq> 0) = (ROWS - h \<le> r)"
  show "gravity board"
    unfolding gravity_iff
  proof (intro allI impI, elim conjE)
    fix c r
    assume c: "c < COLS" and r: "Suc r < ROWS" and occ: "board ! r ! c \<noteq> 0"
    from run c obtain h where h: "\<forall>r<ROWS. (board ! r ! c \<noteq> 0) = (ROWS - h \<le> r)" by blast
    from r have "r < ROWS" by simp
    with h occ have "ROWS - h \<le> r" by blast
    then have "ROWS - h \<le> Suc r" by simp
    with h r show "board ! Suc r ! c \<noteq> 0" by blast
  qed
qed

lemma child_of_cases:
  assumes a: "child \<in> set (child_of board player c)"
  shows "\<exists>r. 0 \<le> c \<and> c < int COLS \<and> scan_rows board (nat c) ROWS = Some r
           \<and> child = board[r := (board ! r)[nat c := player]]"
proof -
  have v: "is_valid_location board c"
    using a by (cases "is_valid_location board c") (simp_all add: child_of_def)
  from place_piece_valid [OF v, of player] obtain r
    where r: "scan_rows board (nat c) ROWS = Some r"
      and p: "place_piece board c player = Some (board[r := (board ! r)[nat c := player]])"
    by blast
  from a v p have "child = board[r := (board ! r)[nat c := player]]"
    by (simp add: child_of_def)
  with r valid_col [OF v] show ?thesis by auto
qed

lemma get_children_cases:
  assumes "child \<in> set (get_children board player)"
  shows "\<exists>c r. c < COLS \<and> scan_rows board c ROWS = Some r
           \<and> child = board[r := (board ! r)[c := player]]"
proof -
  from assms obtain c where "c < COLS" and "child \<in> set (child_of board player (int c))"
    unfolding get_children_def by auto
  with child_of_cases [of child board player "int c"] show ?thesis by auto
qed

lemma wf_board_nth: "wf_board board \<Longrightarrow> r < ROWS \<Longrightarrow> length (board ! r) = COLS"
  unfolding wf_board_def list_all_length by simp

lemma wf_board_update:
  "wf_board board \<Longrightarrow> r < ROWS \<Longrightarrow> wf_board (board[r := (board ! r)[c := p]])"
  unfolding wf_board_def list_all_length by (simp add: nth_list_update)

lemma cell_update:
  assumes "wf_board board" "r < ROWS" "c < COLS" "r' < ROWS" "c' < COLS"
  shows "board[r := (board ! r)[c := p]] ! r' ! c'
           = (if r' = r \<and> c' = c then p else board ! r' ! c')"
proof -
  have len: "length board = ROWS" using assms(1) by (simp add: wf_board_def)
  have lenr: "length (board ! r) = COLS" using wf_board_nth assms by blast
  show ?thesis using assms len lenr by (simp add: nth_list_update)
qed

text \<open>
  Claim C9. On a board of the 6 by 7 shape that satisfies the gravity invariant, every
  successor board that \<open>get_children\<close> produces, for any player value, satisfies the
  gravity invariant again (and keeps the shape).
\<close>

theorem get_children_gravity:
  assumes wf: "wf_board board" and g: "gravity board"
    and ch: "child \<in> set (get_children board player)"
  shows "gravity child \<and> wf_board child"
proof -
  from get_children_cases [OF ch] obtain c r where c: "c < COLS"
    and scan: "scan_rows board c ROWS = Some r"
    and child: "child = board[r := (board ! r)[c := player]]" by blast
  from scan_rows_Some [OF scan] have r: "r < ROWS" and empty: "board ! r ! c = 0"
    and below: "\<And>r'. r < r' \<Longrightarrow> r' < ROWS \<Longrightarrow> board ! r' ! c \<noteq> 0" by auto
  have cell: "\<And>r' c'. r' < ROWS \<Longrightarrow> c' < COLS \<Longrightarrow>
      child ! r' ! c' = (if r' = r \<and> c' = c then player else board ! r' ! c')"
    unfolding child using cell_update [OF wf r c] by blast
  have gb: "\<And>c' r'. c' < COLS \<Longrightarrow> Suc r' < ROWS \<Longrightarrow> board ! r' ! c' \<noteq> 0
      \<Longrightarrow> board ! Suc r' ! c' \<noteq> 0"
    using g unfolding gravity_iff by blast
  have "gravity child"
    unfolding gravity_iff
  proof (intro allI impI, elim conjE)
    fix c' r'
    assume c': "c' < COLS" and r': "Suc r' < ROWS" and occ: "child ! r' ! c' \<noteq> 0"
    have r'lt: "r' < ROWS" using r' by simp
    show "child ! Suc r' ! c' \<noteq> 0"
    proof (cases "c' = c")
      case False
      then show ?thesis using cell [OF r' c'] cell [OF r'lt c'] occ gb [OF c' r'] by simp
    next
      case True
      show ?thesis
      proof (cases "r' = r")
        case eq: True
        have "Suc r' \<noteq> r" using eq by simp
        then have "child ! Suc r' ! c' = board ! Suc r' ! c" using cell [OF r' c'] True by simp
        moreover have "board ! Suc r' ! c \<noteq> 0" using below [of "Suc r'"] eq r' by simp
        ultimately show ?thesis by simp
      next
        case ne: False
        then have old: "board ! r' ! c \<noteq> 0" using cell [OF r'lt c'] occ True by simp
        then have nxt: "board ! Suc r' ! c \<noteq> 0" using gb [OF c r'] by simp
        then have "Suc r' \<noteq> r" using empty by auto
        then show ?thesis using cell [OF r' c'] True nxt by simp
      qed
    qed
  qed
  moreover have "wf_board child" unfolding child using wf_board_update [OF wf r] .
  ultimately show ?thesis ..
qed

theorem get_children_gravity_witness:
  "wf_board create_board \<and> gravity create_board
   \<and> first_move_board \<in> set (get_children create_board 1)
   \<and> gravity first_move_board \<and> wf_board first_move_board"
proof -
  have wf: "wf_board create_board" by code_simp
  have g: "gravity create_board" by code_simp
  have ch: "first_move_board \<in> set (get_children create_board 1)" by code_simp
  from get_children_gravity [OF wf g ch] wf g ch show ?thesis by simp
qed

section \<open>Order of the scores\<close>

lemma le_PosInf [simp]: "x \<le> PosInf"
  by (cases x) simp_all

lemma le_NegInf_iff [simp]: "(x \<le> NegInf) = (x = NegInf)"
  by (cases x) simp_all

lemma PosInf_le_iff [simp]: "(PosInf \<le> x) = (x = PosInf)"
  by (cases x) simp_all

lemma less_score_simps [simp]:
  "NegInf < Fin a" "Fin a < PosInf" "NegInf < PosInf" "(Fin a < Fin b) = (a < b)"
  by (auto simp: less_score_def)

lemma not_less_NegInf [simp]: "\<not> x < NegInf"
  by (simp add: not_less)

lemma not_PosInf_less [simp]: "\<not> PosInf < x"
  by (simp add: not_less)

section \<open>Alpha-beta search against the search without pruning\<close>

declare minimax_no_pruning.simps [simp del]
declare minimax_ab.simps [simp del]

lemma np_max_loop_ge: "w \<le> fst (np_max_loop cs d w c)"
proof (induction cs arbitrary: w c)
  case Nil
  then show ?case by simp
next
  case (Cons child rest)
  obtain t c1 where t: "minimax_no_pruning child d False c = (t, c1)" by force
  have "w \<le> (if t > w then t else w)" by (simp add: less_imp_le)
  also have "\<dots> \<le> fst (np_max_loop rest d (if t > w then t else w) c1)" by (rule Cons.IH)
  finally show ?case by (simp add: t)
qed

lemma np_min_loop_le: "fst (np_min_loop cs d w c) \<le> w"
proof (induction cs arbitrary: w c)
  case Nil
  then show ?case by simp
next
  case (Cons child rest)
  obtain t c1 where t: "minimax_no_pruning child d True c = (t, c1)" by force
  have "fst (np_min_loop rest d (if t < w then t else w) c1) \<le> (if t < w then t else w)"
    by (rule Cons.IH)
  also have "\<dots> \<le> w" by (simp add: less_imp_le)
  finally show ?case by (simp add: t)
qed

lemma ab_max_loop_sound:
  assumes node: "\<And>b \<alpha> \<beta> m c c'. \<alpha> < \<beta> \<Longrightarrow>
      soft_bound \<alpha> \<beta> (fst (minimax_no_pruning b d m c')) (fst (minimax_ab b d \<alpha> \<beta> m c))"
  shows "a = max \<alpha>0 v \<Longrightarrow> a < \<beta> \<Longrightarrow> w \<le> v \<Longrightarrow> (\<alpha>0 < v \<longrightarrow> v = w) \<Longrightarrow>
      soft_bound \<alpha>0 \<beta> (fst (np_max_loop cs d w c')) (fst (ab_max_loop cs d a \<beta> v c))"
proof (induction cs arbitrary: a v w c c')
  case Nil
  then show ?case by (auto simp: soft_bound_def max_def split: if_splits)
next
  case (Cons child rest)
  obtain x c1 where x: "minimax_ab child d a \<beta> False c = (x, c1)" by force
  obtain t c1' where t: "minimax_no_pruning child d False c' = (t, c1')" by force
  from node [OF Cons.prems(2), of child False c' c] x t
  have sb: "soft_bound a \<beta> t x" by simp
  define v' where "v' = (if x > v then x else v)"
  define w' where "w' = (if t > w then t else w)"
  have np: "np_max_loop (child # rest) d w c' = np_max_loop rest d w' c1'"
    by (simp add: t w'_def)
  show ?case
  proof (cases "\<beta> \<le> max a x")
    case True
    then have ab: "fst (ab_max_loop (child # rest) d a \<beta> v c) = v'"
      by (simp add: x v'_def)
    from True Cons.prems(2) have bx: "\<beta> \<le> x" by (auto simp: max_def split: if_splits)
    with sb have xt: "x \<le> t" by (simp add: soft_bound_def)
    have "v \<le> a" using Cons.prems(1) by simp
    with Cons.prems(2) bx have "v < x" by auto
    then have v'x: "v' = x" by (simp add: v'_def)
    have "t \<le> w'" by (auto simp: w'_def)
    also have "w' \<le> fst (np_max_loop rest d w' c1')" by (rule np_max_loop_ge)
    finally have "x \<le> fst (np_max_loop rest d w' c1')" using xt by simp
    moreover have "\<alpha>0 < x" using Cons.prems(1,2) bx by (auto simp: max_def split: if_splits)
    ultimately show ?thesis
      unfolding np ab v'x using bx by (auto simp: soft_bound_def)
  next
    case False
    then have lt: "max a x < \<beta>" by (simp add: not_le)
    have ab: "ab_max_loop (child # rest) d a \<beta> v c = ab_max_loop rest d (max a x) \<beta> v' c1"
      using False by (simp add: x v'_def)
    have a': "max a x = max \<alpha>0 v'"
      using Cons.prems(1) by (auto simp: v'_def max_def)
    from lt have xb: "x < \<beta>" by simp
    have tx: "t \<le> x" using sb xb by (auto simp: soft_bound_def not_le)
    have i1: "w' \<le> v'" using Cons.prems(3) tx by (auto simp: w'_def v'_def)
    have i2: "\<alpha>0 < v' \<longrightarrow> v' = w'"
    proof
      assume av: "\<alpha>0 < v'"
      show "v' = w'"
      proof (cases "x > v")
        case True
        then have "v' = x" by (simp add: v'_def)
        with av True Cons.prems(1) have "a < x" by (auto simp: max_def)
        with sb xb have "x = t" by (simp add: soft_bound_def)
        with True Cons.prems(3) \<open>v' = x\<close> show ?thesis by (auto simp: w'_def)
      next
        case False
        then have "v' = v" by (simp add: v'_def)
        with av Cons.prems(4) have "v = w" by simp
        with False tx \<open>v' = v\<close> show ?thesis by (auto simp: w'_def)
      qed
    qed
    show ?thesis
      unfolding np ab by (rule Cons.IH [OF a' lt i1 i2])
  qed
qed

lemma ab_min_loop_sound:
  assumes node: "\<And>b \<alpha> \<beta> m c c'. \<alpha> < \<beta> \<Longrightarrow>
      soft_bound \<alpha> \<beta> (fst (minimax_no_pruning b d m c')) (fst (minimax_ab b d \<alpha> \<beta> m c))"
  shows "b = min \<beta>0 v \<Longrightarrow> \<alpha> < b \<Longrightarrow> v \<le> w \<Longrightarrow> (v < \<beta>0 \<longrightarrow> v = w) \<Longrightarrow>
      soft_bound \<alpha> \<beta>0 (fst (np_min_loop cs d w c')) (fst (ab_min_loop cs d \<alpha> b v c))"
proof (induction cs arbitrary: b v w c c')
  case Nil
  then show ?case by (auto simp: soft_bound_def min_def split: if_splits)
next
  case (Cons child rest)
  obtain x c1 where x: "minimax_ab child d \<alpha> b True c = (x, c1)" by force
  obtain t c1' where t: "minimax_no_pruning child d True c' = (t, c1')" by force
  from node [OF Cons.prems(2), of child True c' c] x t
  have sb: "soft_bound \<alpha> b t x" by simp
  define v' where "v' = (if x < v then x else v)"
  define w' where "w' = (if t < w then t else w)"
  have np: "np_min_loop (child # rest) d w c' = np_min_loop rest d w' c1'"
    by (simp add: t w'_def)
  show ?case
  proof (cases "min b x \<le> \<alpha>")
    case True
    then have ab: "fst (ab_min_loop (child # rest) d \<alpha> b v c) = v'"
      by (simp add: x v'_def)
    from True Cons.prems(2) have xa: "x \<le> \<alpha>" by (auto simp: min_def split: if_splits)
    with sb have tx: "t \<le> x" by (simp add: soft_bound_def)
    have "b \<le> v" using Cons.prems(1) by simp
    with Cons.prems(2) xa have "x < v" by auto
    then have v'x: "v' = x" by (simp add: v'_def)
    have "fst (np_min_loop rest d w' c1') \<le> w'" by (rule np_min_loop_le)
    also have "w' \<le> t" by (auto simp: w'_def)
    finally have "fst (np_min_loop rest d w' c1') \<le> x" using tx by simp
    moreover have "x < \<beta>0" using Cons.prems(1,2) xa by (auto simp: min_def split: if_splits)
    ultimately show ?thesis
      unfolding np ab v'x using xa by (auto simp: soft_bound_def)
  next
    case False
    then have lt: "\<alpha> < min b x" by (simp add: not_le)
    have ab: "ab_min_loop (child # rest) d \<alpha> b v c = ab_min_loop rest d \<alpha> (min b x) v' c1"
      using False by (simp add: x v'_def)
    have b': "min b x = min \<beta>0 v'"
      using Cons.prems(1) by (auto simp: v'_def min_def)
    from lt have ax: "\<alpha> < x" by simp
    have xt: "x \<le> t" using sb ax by (auto simp: soft_bound_def not_le)
    have i1: "v' \<le> w'" using Cons.prems(3) xt by (auto simp: w'_def v'_def)
    have i2: "v' < \<beta>0 \<longrightarrow> v' = w'"
    proof
      assume vb: "v' < \<beta>0"
      show "v' = w'"
      proof (cases "x < v")
        case True
        then have "v' = x" by (simp add: v'_def)
        with vb True Cons.prems(1) have "x < b" by (auto simp: min_def)
        with sb ax have "x = t" by (simp add: soft_bound_def)
        with True Cons.prems(3) \<open>v' = x\<close> show ?thesis by (auto simp: w'_def)
      next
        case False
        then have "v' = v" by (simp add: v'_def)
        with vb Cons.prems(4) have "v = w" by simp
        with False xt \<open>v' = v\<close> show ?thesis by (auto simp: w'_def)
      qed
    qed
    show ?thesis
      unfolding np ab by (rule Cons.IH [OF b' lt i1 i2])
  qed
qed

lemma minimax_ab_sound:
  "\<alpha> < \<beta> \<Longrightarrow>
     soft_bound \<alpha> \<beta> (fst (minimax_no_pruning b d m c')) (fst (minimax_ab b d \<alpha> \<beta> m c))"
proof (induction d arbitrary: b \<alpha> \<beta> m c c')
  case 0
  show ?case
    by (simp add: minimax_ab.simps minimax_no_pruning.simps soft_bound_def)
next
  case (Suc d)
  show ?case
  proof (cases "check_win b 1 \<or> check_win b 2 \<or> is_draw b")
    case True
    then show ?thesis
      by (simp add: minimax_ab.simps minimax_no_pruning.simps soft_bound_def)
  next
    case False
    show ?thesis
    proof (cases m)
      case True
      have "soft_bound \<alpha> \<beta> (fst (np_max_loop (get_children b 1) d NegInf (c' + 1)))
              (fst (ab_max_loop (get_children b 1) d \<alpha> \<beta> NegInf (c + 1)))"
        by (rule ab_max_loop_sound [OF Suc.IH]) (use Suc.prems in \<open>simp_all add: max_def\<close>)
      with False True show ?thesis
        by (simp add: minimax_ab.simps minimax_no_pruning.simps)
    next
      case min: False
      have "soft_bound \<alpha> \<beta> (fst (np_min_loop (get_children b 2) d PosInf (c' + 1)))
              (fst (ab_min_loop (get_children b 2) d \<alpha> \<beta> PosInf (c + 1)))"
        by (rule ab_min_loop_sound [OF Suc.IH]) (use Suc.prems in \<open>simp_all add: min_def\<close>)
      with False min show ?thesis
        by (simp add: minimax_ab.simps minimax_no_pruning.simps)
    qed
  qed
qed

text \<open>
  Claim C1. For every board, depth and maximizing flag, the alpha-beta search started
  with the full window returns the same score as the search without pruning, whatever
  the two counters hold.
\<close>

theorem minimax_ab_eq_no_pruning:
  "fst (minimax_ab board depth NegInf PosInf maximizing c)
     = fst (minimax_no_pruning board depth maximizing c')"
proof -
  have lt: "NegInf < PosInf" by simp
  from minimax_ab_sound [OF lt, of board depth maximizing c' c]
  show ?thesis
    by (cases "fst (minimax_ab board depth NegInf PosInf maximizing c)")
       (auto simp: soft_bound_def)
qed

section \<open>Node counts\<close>

declare ab_break_sum.simps [simp del]

lemma ab_max_loop_fst_counter:
  assumes node: "\<And>b \<alpha> \<beta> m c c'.
      fst (minimax_ab b d \<alpha> \<beta> m c) = fst (minimax_ab b d \<alpha> \<beta> m c')"
  shows "fst (ab_max_loop cs d a \<beta> v c) = fst (ab_max_loop cs d a \<beta> v c')"
proof (induction cs arbitrary: a v c c')
  case Nil
  show ?case by simp
next
  case (Cons child rest)
  obtain x c1 where x: "minimax_ab child d a \<beta> False c = (x, c1)" by force
  obtain x' c1' where x': "minimax_ab child d a \<beta> False c' = (x', c1')" by force
  from node [of child a \<beta> False c c'] x x' have eq: "x' = x" by simp
  show ?case
    using Cons.IH [of "max a x" "if v < x then x else v" c1 c1']
    by (simp add: x x' eq Let_def)
qed

lemma ab_min_loop_fst_counter:
  assumes node: "\<And>b \<alpha> \<beta> m c c'.
      fst (minimax_ab b d \<alpha> \<beta> m c) = fst (minimax_ab b d \<alpha> \<beta> m c')"
  shows "fst (ab_min_loop cs d \<alpha> b v c) = fst (ab_min_loop cs d \<alpha> b v c')"
proof (induction cs arbitrary: b v c c')
  case Nil
  show ?case by simp
next
  case (Cons child rest)
  obtain x c1 where x: "minimax_ab child d \<alpha> b True c = (x, c1)" by force
  obtain x' c1' where x': "minimax_ab child d \<alpha> b True c' = (x', c1')" by force
  from node [of child \<alpha> b True c c'] x x' have eq: "x' = x" by simp
  show ?case
    using Cons.IH [of "min b x" "if x < v then x else v" c1 c1']
    by (simp add: x x' eq Let_def)
qed

lemma minimax_ab_fst_counter:
  "fst (minimax_ab b d \<alpha> \<beta> m c) = fst (minimax_ab b d \<alpha> \<beta> m c')"
proof (induction d arbitrary: b \<alpha> \<beta> m c c')
  case 0
  show ?case by (simp add: minimax_ab.simps Let_def)
next
  case (Suc d)
  show ?case
    using ab_max_loop_fst_counter [OF Suc.IH, of "get_children b 1" \<alpha> \<beta> NegInf "c + 1" "c' + 1"]
      ab_min_loop_fst_counter [OF Suc.IH, of "get_children b 2" \<alpha> \<beta> PosInf "c + 1" "c' + 1"]
    by (simp add: minimax_ab.simps Let_def)
qed

lemma np_max_loop_count:
  assumes node: "\<And>b m c. c + 1 \<le> snd (minimax_no_pruning b d m c)"
  shows "c + int (length cs) \<le> snd (np_max_loop cs d w c)"
proof (induction cs arbitrary: w c)
  case Nil
  show ?case by simp
next
  case (Cons child rest)
  obtain t c1 where t: "minimax_no_pruning child d False c = (t, c1)" by force
  from node [of c child False] t have "c + 1 \<le> c1" by simp
  with Cons.IH [of c1 "if w < t then t else w"] show ?case by (simp add: t)
qed

lemma np_min_loop_count:
  assumes node: "\<And>b m c. c + 1 \<le> snd (minimax_no_pruning b d m c)"
  shows "c + int (length cs) \<le> snd (np_min_loop cs d w c)"
proof (induction cs arbitrary: w c)
  case Nil
  show ?case by simp
next
  case (Cons child rest)
  obtain t c1 where t: "minimax_no_pruning child d True c = (t, c1)" by force
  from node [of c child True] t have "c + 1 \<le> c1" by simp
  with Cons.IH [of c1 "if t < w then t else w"] show ?case by (simp add: t)
qed

lemma minimax_no_pruning_count: "c + 1 \<le> snd (minimax_no_pruning b d m c)"
proof (induction d arbitrary: b m c)
  case 0
  show ?case by (simp add: minimax_no_pruning.simps Let_def)
next
  case (Suc d)
  have "c + 1 \<le> snd (np_max_loop (get_children b 1) d NegInf (c + 1))"
    using np_max_loop_count [OF Suc.IH, of "c + 1" "get_children b 1" NegInf] by simp
  moreover have "c + 1 \<le> snd (np_min_loop (get_children b 2) d PosInf (c + 1))"
    using np_min_loop_count [OF Suc.IH, of "c + 1" "get_children b 2" PosInf] by simp
  ultimately show ?case by (simp add: minimax_no_pruning.simps Let_def)
qed

lemma ab_max_loop_nodes:
  assumes node: "\<And>b \<alpha> \<beta> m c c'.
      snd (minimax_ab b d \<alpha> \<beta> m c) - c + int (ab_break_sum f b d \<alpha> \<beta> m)
        \<le> snd (minimax_no_pruning b d m c') - c'"
    and f: "\<And>n. f n \<le> n"
  shows "snd (ab_max_loop cs d a \<beta> v c) - c + int (max_break_sum f cs d a \<beta>)
           \<le> snd (np_max_loop cs d w c') - c'"
proof (induction cs arbitrary: a v w c c')
  case Nil
  show ?case by simp
next
  case (Cons child rest)
  obtain x c1 where x: "minimax_ab child d a \<beta> False c = (x, c1)" by force
  obtain t c1' where t: "minimax_no_pruning child d False c' = (t, c1')" by force
  have x0: "fst (minimax_ab child d a \<beta> False 0) = x"
    using minimax_ab_fst_counter [of child d a \<beta> False 0 c] x by simp
  from node [of child a \<beta> False c c'] x t
  have n: "c1 - c + int (ab_break_sum f child d a \<beta> False) \<le> c1' - c'" by simp
  define w' where "w' = (if w < t then t else w)"
  have np: "np_max_loop (child # rest) d w c' = np_max_loop rest d w' c1'"
    by (simp add: t w'_def)
  show ?case
  proof (cases "\<beta> \<le> max a x")
    case True
    have "c1' + int (length rest) \<le> snd (np_max_loop rest d w' c1')"
      by (rule np_max_loop_count [OF minimax_no_pruning_count])
    moreover have "int (f (length rest)) \<le> int (length rest)" using f by simp
    ultimately show ?thesis
      unfolding np using True n by (simp add: x x0 Let_def)
  next
    case False
    from Cons.IH [of "max a x" "if v < x then x else v" c1 w' c1'] n False
    show ?thesis unfolding np by (simp add: x x0 Let_def)
  qed
qed

lemma ab_min_loop_nodes:
  assumes node: "\<And>b \<alpha> \<beta> m c c'.
      snd (minimax_ab b d \<alpha> \<beta> m c) - c + int (ab_break_sum f b d \<alpha> \<beta> m)
        \<le> snd (minimax_no_pruning b d m c') - c'"
    and f: "\<And>n. f n \<le> n"
  shows "snd (ab_min_loop cs d \<alpha> b v c) - c + int (min_break_sum f cs d \<alpha> b)
           \<le> snd (np_min_loop cs d w c') - c'"
proof (induction cs arbitrary: b v w c c')
  case Nil
  show ?case by simp
next
  case (Cons child rest)
  obtain x c1 where x: "minimax_ab child d \<alpha> b True c = (x, c1)" by force
  obtain t c1' where t: "minimax_no_pruning child d True c' = (t, c1')" by force
  have x0: "fst (minimax_ab child d \<alpha> b True 0) = x"
    using minimax_ab_fst_counter [of child d \<alpha> b True 0 c] x by simp
  from node [of child \<alpha> b True c c'] x t
  have n: "c1 - c + int (ab_break_sum f child d \<alpha> b True) \<le> c1' - c'" by simp
  define w' where "w' = (if t < w then t else w)"
  have np: "np_min_loop (child # rest) d w c' = np_min_loop rest d w' c1'"
    by (simp add: t w'_def)
  show ?case
  proof (cases "min b x \<le> \<alpha>")
    case True
    have "c1' + int (length rest) \<le> snd (np_min_loop rest d w' c1')"
      by (rule np_min_loop_count [OF minimax_no_pruning_count])
    moreover have "int (f (length rest)) \<le> int (length rest)" using f by simp
    ultimately show ?thesis
      unfolding np using True n by (simp add: x x0 Let_def)
  next
    case False
    from Cons.IH [of "min b x" "if x < v then x else v" c1 w' c1'] n False
    show ?thesis unfolding np by (simp add: x x0 Let_def)
  qed
qed

lemma minimax_ab_nodes:
  assumes f: "\<And>n. f n \<le> n"
  shows "snd (minimax_ab b d \<alpha> \<beta> m c) - c + int (ab_break_sum f b d \<alpha> \<beta> m)
           \<le> snd (minimax_no_pruning b d m c') - c'"
proof (induction d arbitrary: b \<alpha> \<beta> m c c')
  case 0
  show ?case by (simp add: minimax_ab.simps minimax_no_pruning.simps ab_break_sum.simps Let_def)
next
  case (Suc d)
  show ?case
    using ab_max_loop_nodes [OF Suc.IH f, of "get_children b 1" \<alpha> \<beta> NegInf "c + 1" NegInf "c' + 1"]
      ab_min_loop_nodes [OF Suc.IH f, of "get_children b 2" \<alpha> \<beta> PosInf "c + 1" PosInf "c' + 1"]
    by (simp add: minimax_ab.simps minimax_no_pruning.simps ab_break_sum.simps Let_def)
qed

text \<open>
  Claim C2, as amended. For every board, depth and maximizing flag, the number of
  invocations the pruned search adds to its counter, started with the full window, is
  at most the number the search without pruning adds to its own; it is strictly less
  whenever a cutoff fires while a child of that node is still unexamined.
\<close>

theorem pruned_nodes_le:
  "snd (minimax_ab board depth NegInf PosInf maximizing c) - c
     \<le> snd (minimax_no_pruning board depth maximizing c') - c'
   \<and> (0 < ab_skipped board depth NegInf PosInf maximizing \<longrightarrow>
        snd (minimax_ab board depth NegInf PosInf maximizing c) - c
          < snd (minimax_no_pruning board depth maximizing c') - c')"
proof -
  have "snd (minimax_ab board depth NegInf PosInf maximizing c) - c
          + int (ab_skipped board depth NegInf PosInf maximizing)
        \<le> snd (minimax_no_pruning board depth maximizing c') - c'"
    unfolding ab_skipped_def by (rule minimax_ab_nodes) simp
  then show ?thesis by auto
qed

theorem pruned_nodes_le_witness:
  "0 < ab_skipped pruned_board 2 NegInf PosInf True
   \<and> snd (minimax_ab pruned_board 2 NegInf PosInf True 0) - 0
       < snd (minimax_no_pruning pruned_board 2 True 0) - 0"
proof -
  have sk: "0 < ab_skipped pruned_board 2 NegInf PosInf True" by code_simp
  with pruned_nodes_le [of pruned_board 2 True 0 0] show ?thesis by simp
qed

text \<open>
  Claim C2 as stated fails: in the depth-2 search of \<open>late_cutoff_board\<close> a cutoff
  fires, after the last child of its node, and both searches count the same number of
  invocations.
\<close>

theorem cutoff_without_saving:
  "0 < ab_cutoffs late_cutoff_board 2 NegInf PosInf True
   \<and> snd (minimax_ab late_cutoff_board 2 NegInf PosInf True 0)
       = snd (minimax_no_pruning late_cutoff_board 2 True 0)"
  by code_simp

section \<open>The move selection returns a legal column\<close>

declare minimax.simps [simp del]
declare minimax_with_col.simps [simp del]

lemma not_draw_valid:
  assumes "\<not> is_draw board"
  shows "\<exists>c<COLS. is_valid_location board (int c)"
proof -
  from assms obtain c where "c < COLS" "board ! 0 ! c = 0"
    unfolding is_draw_def list_all_upt by auto
  then have "is_valid_location board (int c)" by (simp add: is_valid_location_def)
  with \<open>c < COLS\<close> show ?thesis by blast
qed

lemma valid_not_draw: "is_valid_location board c \<Longrightarrow> \<not> is_draw board"
proof -
  assume v: "is_valid_location board c"
  from valid_col [OF v] have "nat c < COLS" "board ! 0 ! nat c = 0" by auto
  then show ?thesis unfolding is_draw_def list_all_upt by auto
qed

lemma get_children_nonempty:
  assumes "\<not> is_draw board"
  shows "get_children board p \<noteq> []"
proof -
  from not_draw_valid [OF assms] obtain c where c: "c < COLS"
    and v: "is_valid_location board (int c)" by blast
  from place_piece_valid [OF v, of p] obtain b where "place_piece board (int c) p = Some b"
    by blast
  with v have "child_of board p (int c) = [b]" by (simp add: child_of_def)
  moreover have "c \<in> set [0..<COLS]" using c by simp
  ultimately have "b \<in> set (get_children board p)"
    unfolding get_children_def set_concat by (metis (no_types, lifting) UN_I image_eqI list.set_intros(1) set_map)
  then show ?thesis by auto
qed

lemma minimax_max_loop_finite:
  assumes node: "\<And>b \<alpha> \<beta> m. \<exists>x. minimax b d \<alpha> \<beta> m = Fin x"
  shows "(v = NegInf \<and> cs \<noteq> []) \<or> (\<exists>x. v = Fin x) \<Longrightarrow>
    \<exists>x. minimax_max_loop cs d \<alpha> \<beta> v = Fin x"
proof (induction cs arbitrary: \<alpha> v)
  case Nil
  then show ?case by simp
next
  case (Cons child rest)
  from node [of child \<alpha> \<beta> False] obtain e where e: "minimax child d \<alpha> \<beta> False = Fin e"
    by blast
  have fin: "\<exists>x. max v (Fin e) = Fin x"
    using Cons.prems by (auto simp: max_def)
  show ?case
    using Cons.IH [where v = "max v (Fin e)" and \<alpha> = "max \<alpha> (Fin e)"] fin
    by (auto simp: e Let_def)
qed

lemma minimax_min_loop_finite:
  assumes node: "\<And>b \<alpha> \<beta> m. \<exists>x. minimax b d \<alpha> \<beta> m = Fin x"
  shows "(v = PosInf \<and> cs \<noteq> []) \<or> (\<exists>x. v = Fin x) \<Longrightarrow>
    \<exists>x. minimax_min_loop cs d \<alpha> \<beta> v = Fin x"
proof (induction cs arbitrary: \<beta> v)
  case Nil
  then show ?case by simp
next
  case (Cons child rest)
  from node [of child \<alpha> \<beta> True] obtain e where e: "minimax child d \<alpha> \<beta> True = Fin e"
    by blast
  have fin: "\<exists>x. min v (Fin e) = Fin x"
    using Cons.prems by (auto simp: min_def)
  show ?case
    using Cons.IH [where v = "min v (Fin e)" and \<beta> = "min \<beta> (Fin e)"] fin
    by (auto simp: e Let_def)
qed

lemma minimax_finite: "\<exists>x. minimax b d \<alpha> \<beta> m = Fin x"
proof (induction d arbitrary: b \<alpha> \<beta> m)
  case 0
  show ?case by (simp add: minimax.simps)
next
  case (Suc d)
  show ?case
  proof (cases "check_win b 1 \<or> check_win b 2 \<or> is_draw b")
    case True
    then show ?thesis by (simp add: minimax.simps)
  next
    case False
    then have nd: "\<not> is_draw b" by simp
    from minimax_max_loop_finite [OF Suc.IH, where cs = "get_children b 1" and v = NegInf
        and \<alpha> = \<alpha> and \<beta> = \<beta>]
      get_children_nonempty [OF nd, of 1]
    have mx: "\<exists>x. minimax_max_loop (get_children b 1) d \<alpha> \<beta> NegInf = Fin x" by simp
    from minimax_min_loop_finite [OF Suc.IH, where cs = "get_children b 2" and v = PosInf
        and \<alpha> = \<alpha> and \<beta> = \<beta>]
      get_children_nonempty [OF nd, of 2]
    have mn: "\<exists>x. minimax_min_loop (get_children b 2) d \<alpha> \<beta> PosInf = Fin x" by simp
    from False mx mn show ?thesis by (simp add: minimax.simps)
  qed
qed

lemma ai_move_loop_keeps_valid:
  "is_valid_location board c0 \<Longrightarrow>
     \<exists>c. snd (ai_move_loop board cs d best_score (Some c0)) = Some c \<and> is_valid_location board c"
proof (induction cs arbitrary: best_score c0)
  case Nil
  then show ?case by simp
next
  case (Cons c cs)
  show ?case
  proof (cases "is_valid_location board c")
    case False
    with Cons.IH [OF Cons.prems] show ?thesis by simp
  next
    case True
    from place_piece_valid [OF True, of 1] obtain t where t: "place_piece board c 1 = Some t"
      by blast
    from Cons.IH [OF True] Cons.IH [OF Cons.prems] True show ?thesis
      by (simp add: t Let_def)
  qed
qed

lemma ai_move_loop_finds_valid:
  "list_ex (is_valid_location board) cs \<Longrightarrow>
     \<exists>c. snd (ai_move_loop board cs d NegInf None) = Some c \<and> is_valid_location board c"
proof (induction cs)
  case Nil
  then show ?case by simp
next
  case (Cons c cs)
  show ?case
  proof (cases "is_valid_location board c")
    case False
    with Cons show ?thesis by simp
  next
    case True
    from place_piece_valid [OF True, of 1] obtain t where t: "place_piece board c 1 = Some t"
      by blast
    from minimax_finite [of t d NegInf PosInf False] obtain x
      where x: "minimax t d NegInf PosInf False = Fin x" by blast
    from ai_move_loop_keeps_valid [OF True, of cs d "Fin x"] True show ?thesis
      by (simp add: t x)
  qed
qed

lemma with_col_max_loop_valid:
  "is_valid_location board c0 \<Longrightarrow> list_all (is_valid_location board) cols \<Longrightarrow>
     \<exists>c. fst (with_col_max_loop board cols d \<alpha> \<beta> ai v (Some c0)) = Some c
         \<and> is_valid_location board c"
proof (induction cols arbitrary: \<alpha> v c0)
  case Nil
  then show ?case by simp
next
  case (Cons col rest)
  then have vc: "is_valid_location board col" and vr: "list_all (is_valid_location board) rest"
    by simp_all
  from place_piece_valid [OF vc, of ai] obtain t where t: "place_piece board col ai = Some t"
    by blast
  obtain bc s where r: "minimax_with_col t d \<alpha> \<beta> False ai = (bc, s)" by force
  from Cons.IH [OF vc vr] Cons.IH [OF Cons.prems(1) vr] vc Cons.prems(1) show ?case
    by (simp add: t r Let_def)
qed

lemma with_col_min_loop_valid:
  "is_valid_location board c0 \<Longrightarrow> list_all (is_valid_location board) cols \<Longrightarrow>
     \<exists>c. fst (with_col_min_loop board cols d \<alpha> \<beta> ai v (Some c0)) = Some c
         \<and> is_valid_location board c"
proof (induction cols arbitrary: \<beta> v c0)
  case Nil
  then show ?case by simp
next
  case (Cons col rest)
  then have vc: "is_valid_location board col" and vr: "list_all (is_valid_location board) rest"
    by simp_all
  from place_piece_valid [OF vc, of "if ai = 2 then 1 else 2"] obtain t
    where t: "place_piece board col (if ai = 2 then 1 else 2) = Some t"
    by blast
  obtain bc s where r: "minimax_with_col t d \<alpha> \<beta> True ai = (bc, s)" by force
  from Cons.IH [OF vc vr] Cons.IH [OF Cons.prems(1) vr] vc Cons.prems(1) show ?case
    using t by (simp add: r Let_def)
qed

lemma valid_locations_all: "list_all (is_valid_location board) (valid_locations board)"
  by (simp add: valid_locations_def list_all_iff)

lemma valid_locations_ex:
  "is_valid_location board c \<Longrightarrow> list_ex (is_valid_location board) (map int [0..<COLS])"
proof -
  assume v: "is_valid_location board c"
  from valid_col [OF v] have "nat c < COLS" "int (nat c) = c" by auto
  with v show ?thesis unfolding list_ex_iff by (metis atLeast0LessThan image_eqI lessThan_iff set_map set_upt)
qed

lemma ai_move_returns_valid:
  "is_valid_location board c0 \<Longrightarrow>
     \<exists>c. ai_move board depth' = Some c \<and> is_valid_location board c"
  unfolding ai_move_def
  by (rule ai_move_loop_finds_valid [OF valid_locations_ex])

lemma with_col_returns_valid:
  assumes nowin: "\<not> check_win board 1 \<and> \<not> check_win board 2"
    and nd: "\<not> is_draw board" and d: "depth \<noteq> 0"
  shows "\<exists>c. fst (minimax_with_col board depth \<alpha> \<beta> maximizing ai_player) = Some c
           \<and> is_valid_location board c"
proof -
  from nd have "valid_locations board \<noteq> []" by (simp add: valid_locations_empty)
  then obtain c1 cs where vl: "valid_locations board = c1 # cs"
    by (cases "valid_locations board") auto
  have all: "list_all (is_valid_location board) (c1 # cs)"
    using valid_locations_all [of board] vl by simp
  then have v1: "is_valid_location board c1" by simp
  show ?thesis
    using with_col_max_loop_valid [OF v1 all, of "depth - 1" \<alpha> \<beta> ai_player NegInf]
      with_col_min_loop_valid [OF v1 all, of "depth - 1" \<alpha> \<beta> ai_player PosInf]
      nowin nd d
    by (simp add: minimax_with_col.simps vl)
qed

lemma with_col_column_valid:
  assumes col: "fst (minimax_with_col board depth \<alpha> \<beta> maximizing ai_player) = Some c"
  shows "is_valid_location board c"
proof -
  have nt: "\<not> (depth = 0 \<or> check_win board 1 \<or> check_win board 2 \<or> is_draw board)"
    using col by (auto simp: minimax_with_col.simps split: if_splits)
  then have "\<not> check_win board 1 \<and> \<not> check_win board 2" "\<not> is_draw board" "depth \<noteq> 0"
    by simp_all
  from with_col_returns_valid [OF this, of \<alpha> \<beta> maximizing ai_player] col
  show ?thesis by auto
qed

text \<open>
  Claim C8. For every board with a legal column and every depth of at least 1: the AI's
  move of the terminal game is a column that \<open>is_valid_location\<close> accepts; every
  column that \<open>minimax_with_col\<close> returns, for any depth, window and flag, is one that
  \<open>is_valid_location\<close> accepts; and \<open>minimax_with_col\<close> does return a column when the
  depth is at least 1 and no player has four in a line on the board. (On a won board
  it returns None, which is no column: claim C10.)
\<close>

theorem move_selection_valid:
  assumes legal: "is_valid_location board c0"
  shows "(\<exists>c. ai_move board depth' = Some c \<and> is_valid_location board c)
       \<and> (\<forall>c. fst (minimax_with_col board depth \<alpha> \<beta> maximizing ai_player) = Some c \<longrightarrow>
              is_valid_location board c)
       \<and> (1 \<le> depth \<and> \<not> check_win board 1 \<and> \<not> check_win board 2 \<longrightarrow>
            (\<exists>c. fst (minimax_with_col board depth \<alpha> \<beta> maximizing ai_player) = Some c
                \<and> is_valid_location board c))"
proof (intro conjI allI impI)
  show "\<exists>c. ai_move board depth' = Some c \<and> is_valid_location board c"
    by (rule ai_move_returns_valid [OF legal])
next
  fix c
  assume "fst (minimax_with_col board depth \<alpha> \<beta> maximizing ai_player) = Some c"
  then show "is_valid_location board c" by (rule with_col_column_valid)
next
  assume a: "1 \<le> depth \<and> \<not> check_win board 1 \<and> \<not> check_win board 2"
  then have nowin: "\<not> check_win board 1 \<and> \<not> check_win board 2" and d: "depth \<noteq> 0"
    by simp_all
  have nd: "\<not> is_draw board" by (rule valid_not_draw [OF legal])
  show "\<exists>c. fst (minimax_with_col board depth \<alpha> \<beta> maximizing ai_player) = Some c
          \<and> is_valid_location board c"
    by (rule with_col_returns_valid [OF nowin nd d])
qed

theorem move_selection_valid_witness:
  "is_valid_location first_move_board 0
   \<and> \<not> check_win first_move_board 1 \<and> \<not> check_win first_move_board 2
   \<and> (\<exists>c. ai_move first_move_board (1 - 1) = Some c \<and> is_valid_location first_move_board c)
   \<and> (\<exists>c. fst (minimax_with_col first_move_board 1 NegInf PosInf True 2) = Some c
          \<and> is_valid_location first_move_board c)"
proof -
  have v: "is_valid_location first_move_board 0" by code_simp
  have w: "\<not> check_win first_move_board 1 \<and> \<not> check_win first_move_board 2" by code_simp
  from move_selection_valid [OF v, where depth' = "1 - 1" and depth = 1 and \<alpha> = NegInf
      and \<beta> = PosInf and maximizing = True and ai_player = 2] v w
  show ?thesis by simp
qed

section \<open>The move-returning search against plain minimax\<close>






section \<open>Ties at the root keep the lowest column\<close>













end
